theory Spec2Isabelle
  imports Complex_Main "HOL-Library.AList"
begin

section \<open>Characters and character classes\<close>

text \<open>
  The program is \<^verbatim>\<open>fullscan_cli.py\<close>. A Python \<^verbatim>\<open>str\<close> is a sequence of code points;
  the model reads a \<^typ>\<open>char\<close> as one code point in the range 0..255, so a \<^typ>\<open>string\<close> is
  a text over that range. The character classes below are the ones Python's \<^verbatim>\<open>re\<close> and
  \<^verbatim>\<open>str.strip\<close> use on that range.
\<close>

definition code :: "char \<Rightarrow> nat" where
  "code c = of_char c"

text \<open>\<^verbatim>\<open>\w\<close> of a \<^verbatim>\<open>str\<close> pattern: alphanumeric code points and the underscore.\<close>

definition is_w :: "char \<Rightarrow> bool" where
  "is_w c =
     (let n = code c in
        (48 \<le> n \<and> n \<le> 57) \<or> (65 \<le> n \<and> n \<le> 90) \<or> n = 95 \<or> (97 \<le> n \<and> n \<le> 122)
        \<or> n = 170 \<or> n = 178 \<or> n = 179 \<or> n = 181 \<or> n = 185 \<or> n = 186
        \<or> (188 \<le> n \<and> n \<le> 190) \<or> (192 \<le> n \<and> n \<le> 214) \<or> (216 \<le> n \<and> n \<le> 246)
        \<or> 248 \<le> n)"

text \<open>The class \<^verbatim>\<open>[\w']\<close>.\<close>

definition word_char :: "char \<Rightarrow> bool" where
  "word_char c = (is_w c \<or> c = CHR 0x27)"

text \<open>The class \<^verbatim>\<open>[.,!?;:]\<close>.\<close>

definition punct_char :: "char \<Rightarrow> bool" where
  "punct_char c = (c \<in> set ''.,!?;:'')"

text \<open>The characters \<^verbatim>\<open>str.strip()\<close> removes.\<close>

definition is_space :: "char \<Rightarrow> bool" where
  "is_space c =
     (let n = code c in (9 \<le> n \<and> n \<le> 13) \<or> (28 \<le> n \<and> n \<le> 32) \<or> n = 133 \<or> n = 160)"

text \<open>\<^verbatim>\<open>vowels = 'aeiouyAEIOUY'\<close> of the first engine's \<^verbatim>\<open>syllabify\<close>.\<close>

definition vowels :: string where
  "vowels = ''aeiouyAEIOUY''"

text \<open>The class \<^verbatim>\<open>[aeiou]\<close> under \<^verbatim>\<open>re.I\<close>, of the second engine's \<^verbatim>\<open>syllabify\<close>.\<close>

definition re_vowel :: "char \<Rightarrow> bool" where
  "re_vowel c = (c \<in> set ''aeiouAEIOU'')"

definition re_nonvowel :: "char \<Rightarrow> bool" where
  "re_nonvowel c = (\<not> re_vowel c)"

section \<open>String primitives\<close>

text \<open>\<^verbatim>\<open>raw.strip()\<close>\<close>

definition strip :: "string \<Rightarrow> string" where
  "strip s = rev (dropWhile is_space (rev (dropWhile is_space s)))"

text \<open>\<^verbatim>\<open>s.split('\n')\<close>: always at least one piece.\<close>

fun split_nl :: "string \<Rightarrow> string list" where
  "split_nl [] = [[]]"
| "split_nl (c # cs) =
     (if c = CHR 0x0A then [] # split_nl cs
      else (case split_nl cs of [] \<Rightarrow> [[c]] | l # ls \<Rightarrow> (c # l) # ls))"

text \<open>
  \<^verbatim>\<open>re.findall(r"[\w']+[.,!?;:]*", text)\<close>: at a word character the match takes the
  longest run of word characters and then the longest run of punctuation, and the scan
  goes on behind the match; elsewhere the scan moves one character on.
\<close>

function findall_word_punc :: "string \<Rightarrow> string list" where
  "findall_word_punc [] = []"
| "findall_word_punc (c # cs) =
     (if word_char c
      then (takeWhile word_char (c # cs) @ takeWhile punct_char (dropWhile word_char (c # cs)))
           # findall_word_punc (dropWhile punct_char (dropWhile word_char (c # cs)))
      else findall_word_punc cs)"
  by pat_completeness auto
termination
proof (relation "measure length")
  fix c :: char and cs :: string
  assume "word_char c"
  have "length (dropWhile punct_char (dropWhile word_char cs)) \<le> length (dropWhile word_char cs)"
    by (rule length_dropWhile_le)
  also have "\<dots> \<le> length cs"
    by (rule length_dropWhile_le)
  finally show "(dropWhile punct_char (dropWhile word_char (c # cs)), c # cs) \<in> measure length"
    using \<open>word_char c\<close> by simp
qed simp_all

text \<open>\<^verbatim>\<open>re.findall(r"[\w']+", text)\<close>\<close>

function findall_word :: "string \<Rightarrow> string list" where
  "findall_word [] = []"
| "findall_word (c # cs) =
     (if word_char c
      then takeWhile word_char (c # cs) # findall_word (dropWhile word_char (c # cs))
      else findall_word cs)"
  by pat_completeness auto
termination
proof (relation "measure length")
  fix c :: char and cs :: string
  assume "word_char c"
  have "length (dropWhile word_char cs) \<le> length cs"
    by (rule length_dropWhile_le)
  then show "(dropWhile word_char (c # cs), c # cs) \<in> measure length"
    using \<open>word_char c\<close> by simp
qed simp_all

text \<open>
  \<^verbatim>\<open>re.match(r"([\w']+)([.,!?;:]*)", w)\<close> and \<^verbatim>\<open>m.groups()\<close>: no match when \<^verbatim>\<open>w\<close> does
  not start with a word character.
\<close>

definition match_base_punc :: "string \<Rightarrow> (string \<times> string) option" where
  "match_base_punc w =
     (let base = takeWhile word_char w
      in if base = [] then None
         else Some (base, takeWhile punct_char (dropWhile word_char w)))"

text \<open>
  \<^verbatim>\<open>re.findall(r"[^aeiou]*[aeiou]+[^aeiou]*", word, re.I)\<close>: a match is a longest run of
  non-vowels, one or more vowels, and a longest run of non-vowels; where no vowel follows,
  the attempt fails and the scan moves one character on.
\<close>

function findall_syllables :: "string \<Rightarrow> string list" where
  "findall_syllables [] = []"
| "findall_syllables (c # cs) =
     (if dropWhile re_nonvowel (c # cs) = [] then findall_syllables cs
      else (takeWhile re_nonvowel (c # cs)
            @ takeWhile re_vowel (dropWhile re_nonvowel (c # cs))
            @ takeWhile re_nonvowel (dropWhile re_vowel (dropWhile re_nonvowel (c # cs))))
           # findall_syllables
               (dropWhile re_nonvowel (dropWhile re_vowel (dropWhile re_nonvowel (c # cs)))))"
  by pat_completeness auto
termination
proof (relation "measure length")
  fix c :: char and cs :: string
  assume ne: "dropWhile re_nonvowel (c # cs) \<noteq> []"
  define r where "r = dropWhile re_nonvowel (c # cs)"
  have r_ne: "r \<noteq> []"
    unfolding r_def by (rule ne)
  have "\<not> re_nonvowel (hd r)"
    unfolding r_def by (rule hd_dropWhile [OF ne])
  then have "re_vowel (hd r)"
    by (simp add: re_nonvowel_def)
  then have eq: "dropWhile re_vowel r = dropWhile re_vowel (tl r)"
    using r_ne by (cases r) simp_all
  have "length (dropWhile re_vowel (tl r)) \<le> length (tl r)"
    by (rule length_dropWhile_le)
  then have "length (dropWhile re_vowel r) \<le> length (tl r)"
    by (simp only: eq)
  also have "\<dots> < length r"
    using r_ne by (cases r) simp_all
  also have "\<dots> \<le> length (c # cs)"
    unfolding r_def by (rule length_dropWhile_le)
  finally have "length (dropWhile re_vowel r) < length (c # cs)" .
  moreover have "length (dropWhile re_nonvowel (dropWhile re_vowel r)) \<le> length (dropWhile re_vowel r)"
    by (rule length_dropWhile_le)
  ultimately have "length (dropWhile re_nonvowel (dropWhile re_vowel r)) < length (c # cs)"
    by simp
  then show "(dropWhile re_nonvowel (dropWhile re_vowel (dropWhile re_nonvowel (c # cs))), c # cs)
      \<in> measure length"
    by (simp only: r_def in_measure)
qed simp_all

section \<open>The two syllabifiers\<close>

text \<open>
  The file holds two classes \<^verbatim>\<open>FullScanEngine\<close>. The first (lines 16 to 122) syllabifies by
  accumulating characters and cutting behind each vowel; the second (lines 243 to 337) by
  \<^verbatim>\<open>re.findall\<close>. Names of the second class carry the suffix \<open>_v2\<close>.
\<close>

text \<open>
  The loop of the first \<^verbatim>\<open>syllabify\<close>, on the state \<^verbatim>\<open>(out, syl)\<close>:
  \<^verbatim>\<open>for char in word: syl += char; if char in vowels and syl: out.append(syl); syl = ''\<close>
\<close>

fun syllabify_loop :: "string \<Rightarrow> string list \<times> string \<Rightarrow> string list \<times> string" where
  "syllabify_loop [] (out, syl) = (out, syl)"
| "syllabify_loop (char # word) (out, syl) =
     (if char \<in> set vowels \<and> syl @ [char] \<noteq> []
      then syllabify_loop word (out @ [syl @ [char]], [])
      else syllabify_loop word (out, syl @ [char]))"

definition syllabify :: "string \<Rightarrow> string list" where
  "syllabify word =
     (if word = [] then []
      else (case syllabify_loop word ([], []) of
              (out, syl) \<Rightarrow> if syl \<noteq> [] then out @ [syl] else out))"

definition syllabify_v2 :: "string \<Rightarrow> string list" where
  "syllabify_v2 word = findall_syllables word"

section \<open>The tokenizers\<close>

text \<open>
  The loop of the first \<^verbatim>\<open>tokenize_syllabic\<close> over the words found: each word is matched
  again, its base syllabified, and the syllables joined back in front of the punctuation.
\<close>

fun tokenize_words :: "string list \<Rightarrow> string list" where
  "tokenize_words [] = []"
| "tokenize_words (w # words) =
     (case match_base_punc w of
        None \<Rightarrow> tokenize_words words
      | Some (base, punc) \<Rightarrow> (concat (syllabify base) @ punc) # tokenize_words words)"

definition tokenize_syllabic :: "string \<Rightarrow> string list" where
  "tokenize_syllabic text = tokenize_words (findall_word_punc text)"

text \<open>The two loops of the second \<^verbatim>\<open>tokenize_syllabic\<close>.\<close>

fun extend_syllables :: "string list \<Rightarrow> string list" where
  "extend_syllables [] = []"
| "extend_syllables (w # words) = syllabify_v2 w @ extend_syllables words"

fun append_words :: "string list \<Rightarrow> string list" where
  "append_words [] = []"
| "append_words (w # words) =
     (case match_base_punc w of
        None \<Rightarrow> append_words words
      | Some (base, punc) \<Rightarrow> (base @ punc) # append_words words)"

definition tokenize_syllabic_v2 :: "bool \<Rightarrow> string \<Rightarrow> string list" where
  "tokenize_syllabic_v2 syllable_mode text =
     (if syllable_mode then extend_syllables (findall_word text)
      else append_words (findall_word_punc text))"

text \<open>
  The syllable-mode branch of the second \<^verbatim>\<open>tokenize_syllabic\<close> (lines 277 to 282) calls
  \<^verbatim>\<open>self.syllabify(w)\<close>. Below, the same loop takes the method it calls as a parameter, so
  that the branch can be read under either of the two \<^verbatim>\<open>syllabify\<close> methods of the file: with
  \<^const>\<open>syllabify_v2\<close> it is the second class as written, with \<^const>\<open>syllabify\<close> it is the
  syllable mode under the accumulate-on-vowel policy.
\<close>

fun extend_syllables_with :: "(string \<Rightarrow> string list) \<Rightarrow> string list \<Rightarrow> string list" where
  "extend_syllables_with syllabify_method [] = []"
| "extend_syllables_with syllabify_method (w # words) =
     syllabify_method w @ extend_syllables_with syllabify_method words"

definition tokenize_syllable_mode :: "(string \<Rightarrow> string list) \<Rightarrow> string \<Rightarrow> string list" where
  "tokenize_syllable_mode syllabify_method text =
     extend_syllables_with syllabify_method (findall_word text)"

section \<open>The scan engine\<close>

text \<open>
  A Python \<^verbatim>\<open>dict\<close> is an association list in insertion order with one entry for each key:
  \<^const>\<open>map_of\<close> reads it, \<^const>\<open>AList.update\<close> assigns to a key (in place when the key is
  there, at the end otherwise). \<^verbatim>\<open>d[k]\<close> on a missing key raises \<^verbatim>\<open>KeyError\<close>.
\<close>

datatype error = KeyError

record engine =
  sources :: "(string \<times> string list) list"
  context_maps :: "(string \<times> (string \<times> nat) list) list"
  miss_counts :: "(string \<times> nat) list"
  clusters :: "(string \<times> string list list) list"

text \<open>
  \<^verbatim>\<open>__init__\<close>: the four dictionaries start empty. The \<^verbatim>\<open>RLock\<close> it also creates is taken
  by no method, and the \<^verbatim>\<open>syllable_mode\<close> flag of the second class is read by its tokenizer
  only; neither is a field of the record.
\<close>

definition init_engine :: engine where
  "init_engine = \<lparr>sources = [], context_maps = [], miss_counts = [], clusters = []\<rparr>"

text \<open>
  The methods below are the same text in both classes, apart from the tokenizer they call,
  which is the parameter \<open>tokenize\<close>: \<^const>\<open>tokenize_syllabic\<close> for the first class,
  \<^term>\<open>tokenize_syllabic_v2 syllable_mode\<close> for the second.
\<close>

text \<open>
  The inner loop of \<^verbatim>\<open>ingest\<close>:
  \<^verbatim>\<open>for i, tk in enumerate(tokens): cluster.append(tk);
  if tk not in self.context_maps[source]: self.context_maps[source][tk] = start + i\<close>
\<close>

fun index_loop ::
  "string \<Rightarrow> nat \<Rightarrow> nat \<Rightarrow> string list \<Rightarrow> engine \<times> string list \<Rightarrow> error + engine \<times> string list"
where
  "index_loop source start i [] (st, cluster) = Inr (st, cluster)"
| "index_loop source start i (tk # tokens) (st, cluster) =
     (case map_of (context_maps st) source of
        None \<Rightarrow> Inl KeyError
      | Some context_map \<Rightarrow>
          index_loop source start (Suc i) tokens
            (if map_of context_map tk = None
             then st\<lparr>context_maps :=
                       AList.update source (AList.update tk (start + i) context_map)
                         (context_maps st)\<rparr>
             else st,
             cluster @ [tk]))"

text \<open>The body of the loop over the lines.\<close>

definition ingest_line ::
  "(string \<Rightarrow> string list) \<Rightarrow> string \<Rightarrow> engine \<Rightarrow> string \<Rightarrow> error + engine"
where
  "ingest_line tokenize source st line =
     (let tokens = tokenize line in
      case map_of (sources st) source of
        None \<Rightarrow> Inl KeyError
      | Some full_text \<Rightarrow>
          (let start = length full_text;
               st1 = st\<lparr>sources := AList.update source (full_text @ tokens) (sources st)\<rparr>
           in case index_loop source start 0 tokens (st1, []) of
                Inl e \<Rightarrow> Inl e
              | Inr (st2, cluster) \<Rightarrow>
                  if cluster \<noteq> []
                  then (case map_of (clusters st2) source of
                          None \<Rightarrow> Inl KeyError
                        | Some cs \<Rightarrow>
                            Inr (st2\<lparr>clusters :=
                                       AList.update source (cs @ [cluster]) (clusters st2)\<rparr>))
                  else Inr st2))"

fun ingest_lines ::
  "(string \<Rightarrow> string list) \<Rightarrow> string \<Rightarrow> engine \<Rightarrow> string list \<Rightarrow> error + engine"
where
  "ingest_lines tokenize source st [] = Inr st"
| "ingest_lines tokenize source st (line # lines) =
     (case ingest_line tokenize source st line of
        Inl e \<Rightarrow> Inl e
      | Inr st' \<Rightarrow> ingest_lines tokenize source st' lines)"

text \<open>The first statement of \<^verbatim>\<open>ingest\<close>: an unseen source gets its four empty entries.\<close>

definition new_source :: "engine \<Rightarrow> string \<Rightarrow> engine" where
  "new_source st source =
     (if map_of (sources st) source = None
      then \<lparr>sources = AList.update source [] (sources st),
            context_maps = AList.update source [] (context_maps st),
            miss_counts = AList.update source 0 (miss_counts st),
            clusters = AList.update source [] (clusters st)\<rparr>
      else st)"

definition ingest ::
  "(string \<Rightarrow> string list) \<Rightarrow> engine \<Rightarrow> string \<Rightarrow> string \<Rightarrow> error + engine"
where
  "ingest tokenize st source raw =
     ingest_lines tokenize source (new_source st source) (split_nl (strip raw))"

text \<open>
  \<^verbatim>\<open>scan_complete\<close> returns its boolean and the engine with the recomputed miss count
  stored. \<^verbatim>\<open>context_map.get(k) == n\<close> is false when the key is missing.
\<close>

definition scan_complete :: "engine \<Rightarrow> string \<Rightarrow> error + bool \<times> engine" where
  "scan_complete st source =
     (case map_of (sources st) source of
        None \<Rightarrow> Inr (False, st)
      | Some full_text \<Rightarrow>
          if full_text = [] then Inr (False, st)
          else (case map_of (context_maps st) source of
                  None \<Rightarrow> Inl KeyError
                | Some context_map \<Rightarrow>
                    (let first = hd full_text;
                         last = last full_text;
                         length = length full_text;
                         missing = List.length
                                     (filter (\<lambda>tok. map_of context_map tok = None) full_text);
                         st' = st\<lparr>miss_counts := AList.update source missing (miss_counts st)\<rparr>
                     in Inr (missing = 0
                             \<and> map_of context_map first = Some 0
                             \<and> map_of context_map last = Some (length - 1), st'))))"

text \<open>\<^verbatim>\<open>" ".join(xs)\<close>\<close>

fun join_space :: "string list \<Rightarrow> string" where
  "join_space [] = []"
| "join_space [x] = x"
| "join_space (x # y # ys) = x @ '' '' @ join_space (y # ys)"

definition dump :: "engine \<Rightarrow> string \<Rightarrow> string" where
  "dump st source =
     (case map_of (sources st) source of
        None \<Rightarrow> []
      | Some full_text \<Rightarrow>
          if full_text = [] then []
          else join_space [hd full_text, full_text ! (length full_text div 2), last full_text])"

definition token_count :: "engine \<Rightarrow> string \<Rightarrow> nat" where
  "token_count st source =
     length (case map_of (sources st) source of None \<Rightarrow> [] | Some tokens \<Rightarrow> tokens)"

text \<open>
  \<^verbatim>\<open>avg_syllable_length\<close> divides two integers into a float; the model returns the exact
  quotient, of which the float is the rounding. The default \<^verbatim>\<open>0.0\<close> is exact.
\<close>

definition avg_syllable_length :: "engine \<Rightarrow> string \<Rightarrow> real" where
  "avg_syllable_length st source =
     (let tokens = (case map_of (sources st) source of None \<Rightarrow> [] | Some tokens \<Rightarrow> tokens)
      in if tokens = [] then 0
         else real (sum_list (map length tokens)) / real (length tokens))"

text \<open>A sequence of \<^verbatim>\<open>ingest\<close> calls, each a source key with a raw text.\<close>

fun ingest_all ::
  "(string \<Rightarrow> string list) \<Rightarrow> engine \<Rightarrow> (string \<times> string) list \<Rightarrow> error + engine"
where
  "ingest_all tokenize st [] = Inr st"
| "ingest_all tokenize st ((source, raw) # calls) =
     (case ingest tokenize st source raw of
        Inl e \<Rightarrow> Inl e
      | Inr st' \<Rightarrow> ingest_all tokenize st' calls)"

section \<open>Notions used in the statements and proofs\<close>

text \<open>The position of the first occurrence of \<open>t\<close> in \<open>xs\<close> (the length when there is none).\<close>

definition first_pos :: "'a \<Rightarrow> 'a list \<Rightarrow> nat" where
  "first_pos t xs = length (takeWhile (\<lambda>x. x \<noteq> t) xs)"

text \<open>
  What the inner loop of \<^verbatim>\<open>ingest\<close> makes of an index \<open>f\<close> when it runs over the tokens
  \<open>tks\<close> placed from position \<open>pos\<close> on: old entries stay, each new token gets the position
  of its first occurrence.
\<close>

definition extend_index :: "(string \<rightharpoonup> nat) \<Rightarrow> nat \<Rightarrow> string list \<Rightarrow> (string \<rightharpoonup> nat)" where
  "extend_index f pos tks =
     (\<lambda>t. case f t of Some p \<Rightarrow> Some p
          | None \<Rightarrow> if t \<in> set tks then Some (pos + first_pos t tks) else None)"

text \<open>
  The invariant of the engines that \<^verbatim>\<open>__init__\<close> and \<^verbatim>\<open>ingest\<close> build: a known source has
  its index and its clusters, the index is the first-occurrence index of the token stream,
  and there is no index for an unknown source.
\<close>

definition engine_inv :: "engine \<Rightarrow> bool" where
  "engine_inv st \<longleftrightarrow>
     (\<forall>s toks. map_of (sources st) s = Some toks \<longrightarrow>
        (\<exists>m. map_of (context_maps st) s = Some m \<and> map_of m = extend_index Map.empty 0 toks)
        \<and> map_of (clusters st) s \<noteq> None)
     \<and> (\<forall>s. map_of (sources st) s = None \<longrightarrow> map_of (context_maps st) s = None)"

text \<open>
  The tokens one \<^verbatim>\<open>ingest\<close> call appends: those of the lines of
  \<^verbatim>\<open>raw.strip().split('\n')\<close>, in order.
\<close>

definition text_tokens :: "(string \<Rightarrow> string list) \<Rightarrow> string \<Rightarrow> string list" where
  "text_tokens tokenize raw = concat (map tokenize (split_nl (strip raw)))"

section \<open>The syllabifiers: what the syllables add up to\<close>

lemma syllabify_loop_concat:
  "syllabify_loop word (out, syl) = (out', syl') \<Longrightarrow> concat out' @ syl' = concat out @ syl @ word"
  by (induction word arbitrary: out syl) (auto split: if_splits)

lemma syllabify_concat: "concat (syllabify word) = word"
proof (cases "word = []")
  case True
  then show ?thesis by (simp add: syllabify_def)
next
  case False
  obtain out syl where r: "syllabify_loop word ([], []) = (out, syl)"
    by (cases "syllabify_loop word ([], [])")
  from syllabify_loop_concat [OF r] have "concat out @ syl = word" by simp
  with False r show ?thesis by (auto simp: syllabify_def)
qed

lemma syllabify_loop_no_vowel:
  "set word \<inter> set vowels = {} \<Longrightarrow> syllabify_loop word (out, syl) = (out, syl @ word)"
  by (induction word arbitrary: syl) auto

lemma syllabify_no_vowel:
  "word \<noteq> [] \<Longrightarrow> set word \<inter> set vowels = {} \<Longrightarrow> syllabify word = [word]"
  by (simp add: syllabify_def syllabify_loop_no_vowel)

lemma findall_syllables_no_vowel:
  "\<forall>c\<in>set word. \<not> re_vowel c \<Longrightarrow> findall_syllables word = []"
proof (induction word)
  case Nil
  then show ?case by simp
next
  case (Cons c cs)
  then have "dropWhile re_nonvowel (c # cs) = []"
    by (simp add: re_nonvowel_def)
  with Cons show ?case by (simp del: dropWhile.simps)
qed

lemma dropWhile_nonvowel_cases:
  "dropWhile re_nonvowel xs = [] \<or> re_vowel (hd (dropWhile re_nonvowel xs))"
  using hd_dropWhile [of re_nonvowel xs] by (auto simp: re_nonvowel_def)

lemma findall_syllables_concat:
  "concat (findall_syllables word) = (if \<exists>c\<in>set word. re_vowel c then word else [])"
proof (induction word rule: findall_syllables.induct)
  case 1
  then show ?case by simp
next
  case (2 c cs)
  show ?case
  proof (cases "dropWhile re_nonvowel (c # cs) = []")
    case True
    then have "\<forall>x\<in>set (c # cs). re_nonvowel x"
      by (simp only: dropWhile_eq_Nil_conv)
    then have "\<forall>x\<in>set (c # cs). \<not> re_vowel x"
      by (simp add: re_nonvowel_def)
    with True show ?thesis
      by (simp add: findall_syllables_no_vowel del: dropWhile.simps)
  next
    case False
    define r where "r = dropWhile re_nonvowel (c # cs)"
    define rest where "rest = dropWhile re_nonvowel (dropWhile re_vowel r)"
    from False have "\<not> (\<forall>x\<in>set (c # cs). re_nonvowel x)"
      by (simp only: dropWhile_eq_Nil_conv not_False_eq_True)
    then have ex: "\<exists>x\<in>set (c # cs). re_vowel x"
      by (simp add: re_nonvowel_def)
    have rest: "concat (findall_syllables rest) = rest"
    proof (cases "rest = []")
      case True
      then show ?thesis by simp
    next
      case ne: False
      from dropWhile_nonvowel_cases [of "dropWhile re_vowel r"] ne
      have "re_vowel (hd rest)" unfolding rest_def by blast
      with ne have "\<exists>x\<in>set rest. re_vowel x"
        by (cases rest) auto
      with "2.IH"(2) [OF False] show ?thesis
        by (simp add: rest_def r_def)
    qed
    have split: "c # cs = takeWhile re_nonvowel (c # cs) @ takeWhile re_vowel r
                   @ takeWhile re_nonvowel (dropWhile re_vowel r) @ rest"
      unfolding rest_def r_def by (simp only: takeWhile_dropWhile_id)
    have "findall_syllables (c # cs)
            = (takeWhile re_nonvowel (c # cs) @ takeWhile re_vowel r
                 @ takeWhile re_nonvowel (dropWhile re_vowel r)) # findall_syllables rest"
      unfolding rest_def r_def by (simp only: findall_syllables.simps False if_False)
    then have "concat (findall_syllables (c # cs))
            = takeWhile re_nonvowel (c # cs) @ takeWhile re_vowel r
                 @ takeWhile re_nonvowel (dropWhile re_vowel r) @ rest"
      using rest by simp
    with split ex show ?thesis
      by (simp del: dropWhile.simps takeWhile.simps)
  qed
qed

section \<open>The two word tokenizers agree\<close>

lemma tokenize_words_eq: "tokenize_words words = append_words words"
  by (induction words) (auto simp: syllabify_concat split: option.splits)

text \<open>
  C10. On every input line the first engine's \<^verbatim>\<open>tokenize_syllabic\<close>, which syllabifies each
  word and joins the syllables back in front of the punctuation, returns the same token
  sequence as the second engine's tokenizer in word mode.
\<close>

theorem tokenize_syllabic_eq_word_mode:
  "tokenize_syllabic text = tokenize_syllabic_v2 False text"
  by (simp add: tokenize_syllabic_def tokenize_syllabic_v2_def tokenize_words_eq)

section \<open>Scenarios\<close>

text \<open>
  C8. Ingesting \<^verbatim>\<open>"hello world. bye!"\<close> into a fresh source of a word-mode engine gives the
  token stream \<^verbatim>\<open>["hello", "world.", "bye!"]\<close>; then \<^verbatim>\<open>scan_complete\<close> of the source is
  true and \<^verbatim>\<open>dump\<close> of the source is \<^verbatim>\<open>"hello world. bye!"\<close>.
\<close>

theorem hello_world_scenario:
  "ingest (tokenize_syllabic_v2 False) init_engine ''src'' ''hello world. bye!''
     = Inr \<lparr>sources = [(''src'', [''hello'', ''world.'', ''bye!''])],
            context_maps = [(''src'', [(''hello'', 0), (''world.'', 1), (''bye!'', 2)])],
            miss_counts = [(''src'', 0)],
            clusters = [(''src'', [[''hello'', ''world.'', ''bye!'']])]\<rparr>
   \<and> scan_complete
         \<lparr>sources = [(''src'', [''hello'', ''world.'', ''bye!''])],
          context_maps = [(''src'', [(''hello'', 0), (''world.'', 1), (''bye!'', 2)])],
          miss_counts = [(''src'', 0)],
          clusters = [(''src'', [[''hello'', ''world.'', ''bye!'']])]\<rparr> ''src''
     = Inr (True,
         \<lparr>sources = [(''src'', [''hello'', ''world.'', ''bye!''])],
          context_maps = [(''src'', [(''hello'', 0), (''world.'', 1), (''bye!'', 2)])],
          miss_counts = [(''src'', 0)],
          clusters = [(''src'', [[''hello'', ''world.'', ''bye!'']])]\<rparr>)
   \<and> dump
         \<lparr>sources = [(''src'', [''hello'', ''world.'', ''bye!''])],
          context_maps = [(''src'', [(''hello'', 0), (''world.'', 1), (''bye!'', 2)])],
          miss_counts = [(''src'', 0)],
          clusters = [(''src'', [[''hello'', ''world.'', ''bye!'']])]\<rparr> ''src''
     = ''hello world. bye!''"
  by code_simp

section \<open>The index loop and the invariant of the engine\<close>

lemma first_pos_Cons: "first_pos t (x # xs) = (if x = t then 0 else Suc (first_pos t xs))"
  by (simp add: first_pos_def)

lemma first_pos_append:
  "first_pos t (xs @ ys) = (if t \<in> set xs then first_pos t xs else length xs + first_pos t ys)"
  by (induction xs) (auto simp: first_pos_Cons first_pos_def)

lemma first_pos_props:
  "t \<in> set xs \<Longrightarrow> first_pos t xs < length xs \<and> xs ! first_pos t xs = t \<and> (\<forall>q<first_pos t xs. xs ! q \<noteq> t)"
  by (induction xs) (auto simp: first_pos_Cons nth_Cons split: nat.splits)

lemma extend_index_Nil: "extend_index f pos [] = f"
  by (auto simp: extend_index_def fun_eq_iff split: option.splits)

lemma extend_index_Cons:
  "extend_index f pos (tk # tks) = extend_index (if f tk = None then f(tk \<mapsto> pos) else f) (Suc pos) tks"
  by (auto simp: extend_index_def fun_eq_iff first_pos_Cons split: option.splits)

lemma extend_index_append:
  "extend_index (extend_index f pos xs) (pos + length xs) ys = extend_index f pos (xs @ ys)"
  by (auto simp: extend_index_def fun_eq_iff first_pos_append split: option.splits)

lemma index_loop_result:
  "map_of (context_maps st) source = Some m \<Longrightarrow>
   \<exists>m'. index_loop source start i tks (st, cluster)
           = Inr (st\<lparr>context_maps := AList.update source m' (context_maps st)\<rparr>, cluster @ tks)
       \<and> map_of m' = extend_index (map_of m) (start + i) tks"
proof (induction tks arbitrary: st m i cluster)
  case Nil
  then show ?case
    by (auto simp: extend_index_Nil AList.update_triv intro!: exI [of _ m])
next
  case (Cons tk tks)
  show ?case
  proof (cases "map_of m tk = None")
    case True
    let ?m1 = "AList.update tk (start + i) m"
    let ?st1 = "st\<lparr>context_maps := AList.update source ?m1 (context_maps st)\<rparr>"
    have "map_of (context_maps ?st1) source = Some ?m1"
      by (simp add: update_conv')
    from Cons.IH [OF this, of "Suc i" "cluster @ [tk]"]
    obtain m' where
      r: "index_loop source start (Suc i) tks (?st1, cluster @ [tk])
            = Inr (?st1\<lparr>context_maps := AList.update source m' (context_maps ?st1)\<rparr>, (cluster @ [tk]) @ tks)"
      and m': "map_of m' = extend_index (map_of ?m1) (start + Suc i) tks"
      by blast
    have "map_of m' = extend_index (map_of m) (start + i) (tk # tks)"
      using m' True by (simp add: extend_index_Cons update_conv')
    with r True Cons.prems show ?thesis
      by (auto intro!: exI [of _ m'])
  next
    case False
    from Cons.IH [OF Cons.prems, of "Suc i" "cluster @ [tk]"]
    obtain m' where
      r: "index_loop source start (Suc i) tks (st, cluster @ [tk])
            = Inr (st\<lparr>context_maps := AList.update source m' (context_maps st)\<rparr>, (cluster @ [tk]) @ tks)"
      and m': "map_of m' = extend_index (map_of m) (start + Suc i) tks"
      by blast
    have "map_of m' = extend_index (map_of m) (start + i) (tk # tks)"
      using m' False by (auto simp: extend_index_Cons)
    with r False Cons.prems show ?thesis
      by (auto intro!: exI [of _ m'])
  qed
qed


lemma engine_inv_init: "engine_inv init_engine"
  by (simp add: engine_inv_def init_engine_def)

lemma engine_invD:
  "engine_inv st \<Longrightarrow> map_of (sources st) s = Some toks \<Longrightarrow>
   (\<exists>m. map_of (context_maps st) s = Some m \<and> map_of m = extend_index Map.empty 0 toks)
   \<and> map_of (clusters st) s \<noteq> None"
  unfolding engine_inv_def by blast

lemma engine_inv_unknown:
  "engine_inv st \<Longrightarrow> map_of (sources st) s = None \<Longrightarrow> map_of (context_maps st) s = None"
  unfolding engine_inv_def by blast

lemma ingest_line_effect:
  assumes inv: "engine_inv st" and src: "map_of (sources st) source = Some old"
  shows "\<exists>st'. ingest_line tokenize source st line = Inr st' \<and> engine_inv st'
           \<and> map_of (sources st') = (map_of (sources st))(source \<mapsto> old @ tokenize line)
           \<and> miss_counts st' = miss_counts st
           \<and> (\<forall>s. s \<noteq> source \<longrightarrow> map_of (context_maps st') s = map_of (context_maps st) s)"
proof -
  let ?tokens = "tokenize line"
  let ?st1 = "st\<lparr>sources := AList.update source (old @ ?tokens) (sources st)\<rparr>"
  from engine_invD [OF inv src] obtain m cs where
    m: "map_of (context_maps st) source = Some m" "map_of m = extend_index Map.empty 0 old"
    and cs: "map_of (clusters st) source = Some cs"
    by auto
  have "map_of (context_maps ?st1) source = Some m"
    using m by simp
  from index_loop_result [OF this, of "length old" 0 ?tokens "[]"]
  obtain m' where
    r: "index_loop source (length old) 0 ?tokens (?st1, [])
          = Inr (?st1\<lparr>context_maps := AList.update source m' (context_maps ?st1)\<rparr>, ?tokens)"
    and m': "map_of m' = extend_index (map_of m) (length old) ?tokens"
    by auto
  have m'': "map_of m' = extend_index Map.empty 0 (old @ ?tokens)"
    using m' m(2) extend_index_append [of Map.empty 0 old ?tokens] by simp
  let ?st2 = "?st1\<lparr>context_maps := AList.update source m' (context_maps ?st1)\<rparr>"
  let ?st3 = "if ?tokens \<noteq> []
              then ?st2\<lparr>clusters := AList.update source (cs @ [?tokens]) (clusters ?st2)\<rparr>
              else ?st2"
  have res: "ingest_line tokenize source st line = Inr ?st3"
    using src r cs by (simp add: ingest_line_def Let_def)
  have known: "(\<exists>m. map_of (context_maps ?st3) s = Some m \<and> map_of m = extend_index Map.empty 0 toks)
          \<and> map_of (clusters ?st3) s \<noteq> None"
    if a: "map_of (sources ?st3) s = Some toks" for s toks
  proof (cases "s = source")
    case True
    with a have "toks = old @ ?tokens"
      by (simp add: update_conv' split: if_splits)
    with True m'' cs show ?thesis
      by (simp add: update_conv')
  next
    case False
    with a have "map_of (sources st) s = Some toks"
      by (simp add: update_conv' split: if_splits)
    from engine_invD [OF inv this] False show ?thesis
      by (simp add: update_conv')
  qed
  have unknown: "map_of (context_maps ?st3) s = None" if a: "map_of (sources ?st3) s = None" for s
  proof -
    from a have "s \<noteq> source" and "map_of (sources st) s = None"
      by (auto simp: update_conv' split: if_splits)
    with engine_inv_unknown [OF inv] show ?thesis
      by (simp add: update_conv')
  qed
  have inv3: "engine_inv ?st3"
    unfolding engine_inv_def using known unknown by blast
  have "map_of (sources ?st3) = (map_of (sources st))(source \<mapsto> old @ ?tokens)"
    by (simp add: update_conv')
  moreover have "miss_counts ?st3 = miss_counts st"
    by simp
  moreover have "\<forall>s. s \<noteq> source \<longrightarrow> map_of (context_maps ?st3) s = map_of (context_maps st) s"
    by (simp add: update_conv')
  ultimately show ?thesis
    using res inv3 by blast
qed

lemma ingest_lines_effect:
  "engine_inv st \<Longrightarrow> map_of (sources st) source = Some old \<Longrightarrow>
   \<exists>st'. ingest_lines tokenize source st lines = Inr st' \<and> engine_inv st'
         \<and> map_of (sources st') = (map_of (sources st))(source \<mapsto> old @ concat (map tokenize lines))
         \<and> miss_counts st' = miss_counts st
         \<and> (\<forall>s. s \<noteq> source \<longrightarrow> map_of (context_maps st') s = map_of (context_maps st) s)"
proof (induction lines arbitrary: st old)
  case Nil
  then show ?case by (auto simp: fun_eq_iff)
next
  case (Cons line lines)
  from ingest_line_effect [OF Cons.prems, where tokenize = tokenize and line = line]
  obtain st1 where
    1: "ingest_line tokenize source st line = Inr st1" "engine_inv st1"
       "map_of (sources st1) = (map_of (sources st))(source \<mapsto> old @ tokenize line)"
       "miss_counts st1 = miss_counts st"
       "\<forall>s. s \<noteq> source \<longrightarrow> map_of (context_maps st1) s = map_of (context_maps st) s"
    by blast
  from 1(3) have "map_of (sources st1) source = Some (old @ tokenize line)"
    by simp
  from Cons.IH [OF 1(2) this]
  obtain st2 where
    2: "ingest_lines tokenize source st1 lines = Inr st2" "engine_inv st2"
       "map_of (sources st2)
          = (map_of (sources st1))(source \<mapsto> (old @ tokenize line) @ concat (map tokenize lines))"
       "miss_counts st2 = miss_counts st1"
       "\<forall>s. s \<noteq> source \<longrightarrow> map_of (context_maps st2) s = map_of (context_maps st1) s"
    by blast
  from 1 2 show ?case
    by (auto simp: fun_eq_iff)
qed

lemma new_source_effect:
  assumes "engine_inv st"
  shows "engine_inv (new_source st source)"
    and "map_of (sources (new_source st source)) source
           = Some (case map_of (sources st) source of None \<Rightarrow> [] | Some old \<Rightarrow> old)"
    and "\<And>s. s \<noteq> source \<Longrightarrow> map_of (sources (new_source st source)) s = map_of (sources st) s"
    and "map_of (sources st) source = None \<Longrightarrow>
           map_of (miss_counts (new_source st source)) source = Some 0"
    and "\<And>s. s \<noteq> source \<Longrightarrow>
           map_of (context_maps (new_source st source)) s = map_of (context_maps st) s"
  using assms
  by (auto simp: new_source_def engine_inv_def update_conv' extend_index_def fun_eq_iff)

lemma ingest_effect:
  assumes inv: "engine_inv st"
  shows "\<exists>st'. ingest tokenize st source raw = Inr st' \<and> engine_inv st'
           \<and> map_of (sources st')
               = (map_of (sources st))
                   (source \<mapsto> (case map_of (sources st) source of None \<Rightarrow> [] | Some old \<Rightarrow> old)
                               @ text_tokens tokenize raw)
           \<and> (map_of (sources st) source = None \<longrightarrow> map_of (miss_counts st') source = Some 0)
           \<and> (\<forall>s. s \<noteq> source \<longrightarrow> map_of (context_maps st') s = map_of (context_maps st) s)"
proof -
  let ?st0 = "new_source st source"
  let ?old = "case map_of (sources st) source of None \<Rightarrow> [] | Some old \<Rightarrow> old"
  from ingest_lines_effect [OF new_source_effect(1) [OF inv] new_source_effect(2) [OF inv],
      where tokenize = tokenize and lines = "split_nl (strip raw)"]
  obtain st' where
    r: "ingest_lines tokenize source ?st0 (split_nl (strip raw)) = Inr st'" "engine_inv st'"
       "map_of (sources st')
          = (map_of (sources ?st0))(source \<mapsto> ?old @ concat (map tokenize (split_nl (strip raw))))"
       "miss_counts st' = miss_counts ?st0"
       "\<forall>s. s \<noteq> source \<longrightarrow> map_of (context_maps st') s = map_of (context_maps ?st0) s"
    by blast
  have "map_of (sources st') = (map_of (sources st))(source \<mapsto> ?old @ text_tokens tokenize raw)"
    using r(3) new_source_effect(3) [OF inv, where source = source]
    by (auto simp: fun_eq_iff text_tokens_def)
  moreover have "map_of (sources st) source = None \<longrightarrow> map_of (miss_counts st') source = Some 0"
    using r(4) new_source_effect(4) [OF inv, where source = source] by simp
  moreover have "\<forall>s. s \<noteq> source \<longrightarrow> map_of (context_maps st') s = map_of (context_maps st) s"
    using r(5) new_source_effect(5) [OF inv, where source = source] by simp
  ultimately show ?thesis
    using r(1,2) by (auto simp: ingest_def)
qed

lemma ingest_all_effect:
  "engine_inv st \<Longrightarrow>
   \<exists>st'. ingest_all tokenize st calls = Inr st' \<and> engine_inv st'
         \<and> (\<forall>s. s \<notin> fst ` set calls \<longrightarrow> map_of (sources st') s = map_of (sources st) s)"
proof (induction calls arbitrary: st)
  case Nil
  then show ?case by simp
next
  case (Cons call calls)
  obtain source raw where call: "call = (source, raw)"
    by (cases call)
  from ingest_effect [OF Cons.prems, of tokenize source raw]
  obtain st1 where
    1: "ingest tokenize st source raw = Inr st1" "engine_inv st1"
       "map_of (sources st1)
          = (map_of (sources st))
              (source \<mapsto> (case map_of (sources st) source of None \<Rightarrow> [] | Some old \<Rightarrow> old)
                          @ text_tokens tokenize raw)"
    by blast
  from Cons.IH [OF 1(2)]
  obtain st2 where
    2: "ingest_all tokenize st1 calls = Inr st2" "engine_inv st2"
       "\<forall>s. s \<notin> fst ` set calls \<longrightarrow> map_of (sources st2) s = map_of (sources st1) s"
    by blast
  from 1 2 call show ?case
    by auto
qed

lemma first_index_hd: "toks \<noteq> [] \<Longrightarrow> extend_index Map.empty 0 toks (hd toks) = Some 0"
  by (cases toks) (simp_all add: extend_index_def first_pos_Cons)

lemma first_index_last:
  assumes "toks \<noteq> []"
  shows "extend_index Map.empty 0 toks (last toks) = Some (length toks - 1)
           \<longleftrightarrow> last toks \<notin> set (butlast toks)"
proof -
  from assms have toks: "toks = butlast toks @ [last toks]"
    by simp
  have mem: "last toks \<in> set toks"
    using assms by simp
  have fp: "first_pos (last toks) toks
              = (if last toks \<in> set (butlast toks) then first_pos (last toks) (butlast toks)
                 else length (butlast toks))"
    using first_pos_append [of "last toks" "butlast toks" "[last toks]"] toks
    by (simp add: first_pos_Cons)
  show ?thesis
  proof (cases "last toks \<in> set (butlast toks)")
    case True
    with first_pos_props [OF True] fp mem show ?thesis
      by (auto simp: extend_index_def)
  next
    case False
    with fp mem show ?thesis
      by (simp add: extend_index_def)
  qed
qed

lemma scan_complete_inv:
  assumes inv: "engine_inv st" and src: "map_of (sources st) source = Some toks"
    and ne: "toks \<noteq> []"
  shows "scan_complete st source
           = Inr (last toks \<notin> set (butlast toks),
                  st\<lparr>miss_counts := AList.update source 0 (miss_counts st)\<rparr>)"
proof -
  from engine_invD [OF inv src] obtain m where
    m: "map_of (context_maps st) source = Some m" "map_of m = extend_index Map.empty 0 toks"
    by auto
  have "filter (\<lambda>tok. map_of m tok = None) toks = []"
    by (auto simp: m(2) extend_index_def filter_empty_conv)
  moreover have "map_of m (hd toks) = Some 0"
    using first_index_hd [OF ne] by (simp add: m(2))
  moreover have "map_of m (last toks) = Some (length toks - 1) \<longleftrightarrow> last toks \<notin> set (butlast toks)"
    using first_index_last [OF ne] by (simp add: m(2))
  ultimately show ?thesis
    using src ne m(1) by (simp add: scan_complete_def Let_def)
qed

section \<open>Properties of the engine\<close>

text \<open>Every sequence of \<^verbatim>\<open>ingest\<close> calls on a new engine succeeds, in a state with the invariant.\<close>

lemma reachable:
  "\<exists>st. ingest_all tokenize init_engine calls = Inr st \<and> engine_inv st
        \<and> (\<forall>s. s \<notin> fst ` set calls \<longrightarrow> map_of (sources st) s = None)"
  using ingest_all_effect [OF engine_inv_init, of tokenize calls]
  by (simp add: init_engine_def)

text \<open>
  C4. In an engine state where a known source has an index (as in every state the engine
  builds, by \<open>reachable\<close> and \<open>engine_invD\<close>), \<^verbatim>\<open>scan_complete\<close> returns false when the
  source is unknown or has no tokens, and otherwise returns true exactly when every token
  of the stream is a key of the index, the first token maps to position 0 and the last token
  maps to position \<^verbatim>\<open>len(tokens) - 1\<close>.
\<close>

theorem scan_complete_spec:
  assumes "map_of (sources st) source \<noteq> None \<longrightarrow> map_of (context_maps st) source \<noteq> None"
  shows "\<exists>st'. scan_complete st source
           = Inr ((case (map_of (sources st) source, map_of (context_maps st) source) of
                     (Some tokens, Some m) \<Rightarrow>
                        tokens \<noteq> [] \<and> (\<forall>t\<in>set tokens. map_of m t \<noteq> None)
                        \<and> map_of m (hd tokens) = Some 0
                        \<and> map_of m (last tokens) = Some (length tokens - 1)
                   | _ \<Rightarrow> False), st')"
  using assms
  by (auto simp: scan_complete_def Let_def filter_empty_conv split: option.splits)

text \<open>The statement at a source with the tokens \<^verbatim>\<open>a b\<close>, where the result is true.\<close>

theorem scan_complete_spec_witness:
  "map_of (sources \<lparr>sources = [(''f'', [''a'', ''b''])],
                     context_maps = [(''f'', [(''a'', 0), (''b'', 1)])],
                     miss_counts = [(''f'', 0)],
                     clusters = [(''f'', [[''a'', ''b'']])]\<rparr>) ''f'' \<noteq> None
   \<and> map_of (context_maps \<lparr>sources = [(''f'', [''a'', ''b''])],
                     context_maps = [(''f'', [(''a'', 0), (''b'', 1)])],
                     miss_counts = [(''f'', 0)],
                     clusters = [(''f'', [[''a'', ''b'']])]\<rparr>) ''f'' \<noteq> None
   \<and> (\<exists>st'. scan_complete \<lparr>sources = [(''f'', [''a'', ''b''])],
                     context_maps = [(''f'', [(''a'', 0), (''b'', 1)])],
                     miss_counts = [(''f'', 0)],
                     clusters = [(''f'', [[''a'', ''b'']])]\<rparr> ''f'' = Inr (True, st'))"
  using scan_complete_spec [of "\<lparr>sources = [(''f'', [''a'', ''b''])],
                     context_maps = [(''f'', [(''a'', 0), (''b'', 1)])],
                     miss_counts = [(''f'', 0)],
                     clusters = [(''f'', [[''a'', ''b'']])]\<rparr>" "''f''"]
  by simp

text \<open>
  C7. After any sequence of \<^verbatim>\<open>ingest\<close> calls, for a source key that none of the calls names,
  every query succeeds with its default: \<^verbatim>\<open>scan_complete\<close> is false (and leaves the engine as
  it is), \<^verbatim>\<open>dump\<close> is the empty string, \<^verbatim>\<open>token_count\<close> is 0 and
  \<^verbatim>\<open>avg_syllable_length\<close> is 0.0.
\<close>

theorem unknown_source_defaults:
  assumes "source \<notin> fst ` set calls"
  shows "\<exists>st. ingest_all tokenize init_engine calls = Inr st
           \<and> scan_complete st source = Inr (False, st)
           \<and> dump st source = []
           \<and> token_count st source = 0
           \<and> avg_syllable_length st source = 0"
proof -
  from reachable [of tokenize calls] assms obtain st where
    "ingest_all tokenize init_engine calls = Inr st" "map_of (sources st) source = None"
    by blast
  then show ?thesis
    by (auto simp: scan_complete_def dump_def token_count_def avg_syllable_length_def)
qed

text \<open>The statement for the key \<^verbatim>\<open>nope\<close> after one ingest into \<^verbatim>\<open>a.txt\<close>.\<close>

theorem unknown_source_defaults_witness:
  "''nope'' \<notin> fst ` set [(''a.txt'', ''hello world'')]
   \<and> (\<exists>st. ingest_all tokenize_syllabic init_engine [(''a.txt'', ''hello world'')] = Inr st
           \<and> scan_complete st ''nope'' = Inr (False, st)
           \<and> dump st ''nope'' = []
           \<and> token_count st ''nope'' = 0
           \<and> avg_syllable_length st ''nope'' = 0)"
  using unknown_source_defaults [of "''nope''" "[(''a.txt'', ''hello world'')]" tokenize_syllabic]
  by simp

text \<open>
  C6. After any sequence of \<^verbatim>\<open>ingest\<close> calls, for every source key and raw texts A and B:
  ingesting A and then B into the source succeeds, and \<^verbatim>\<open>token_count\<close> of the source is
  then its \<^verbatim>\<open>token_count\<close> after A alone plus the \<^verbatim>\<open>token_count\<close> that B gives in a fresh
  engine.
\<close>

theorem token_count_additive:
  "\<exists>st0 stA stAB stB.
      ingest_all tokenize init_engine calls = Inr st0
    \<and> ingest tokenize st0 source A = Inr stA
    \<and> ingest tokenize stA source B = Inr stAB
    \<and> ingest tokenize init_engine source B = Inr stB
    \<and> token_count stAB source = token_count stA source + token_count stB source"
proof -
  from reachable [of tokenize calls] obtain st0 where
    0: "ingest_all tokenize init_engine calls = Inr st0" "engine_inv st0"
    by blast
  from ingest_effect [OF 0(2), of tokenize source A] obtain stA where
    a: "ingest tokenize st0 source A = Inr stA" "engine_inv stA"
       "map_of (sources stA) source \<noteq> None"
    by auto
  then obtain old where old: "map_of (sources stA) source = Some old"
    by auto
  from ingest_effect [OF a(2), of tokenize source B] old obtain stAB where
    ab: "ingest tokenize stA source B = Inr stAB"
        "map_of (sources stAB) source = Some (old @ text_tokens tokenize B)"
    by auto
  from ingest_effect [OF engine_inv_init, of tokenize source B] obtain stB where
    b: "ingest tokenize init_engine source B = Inr stB"
       "map_of (sources stB) source = Some (text_tokens tokenize B)"
    by (auto simp: init_engine_def)
  from 0(1) a(1) ab b old show ?thesis
    by (auto simp: token_count_def)
qed

text \<open>
  C5. After any sequence of \<^verbatim>\<open>ingest\<close> calls, for every source and every token \<open>t\<close> of its
  stream, the index of the source maps \<open>t\<close> to the position of the first occurrence of \<open>t\<close>
  in the stream; and every further \<^verbatim>\<open>ingest\<close> call succeeds and leaves every entry of every
  index as it was.
\<close>

theorem index_first_occurrence:
  "\<exists>st. ingest_all tokenize init_engine calls = Inr st
     \<and> (\<forall>source tokens t. map_of (sources st) source = Some tokens \<and> t \<in> set tokens \<longrightarrow>
          (\<exists>m p. map_of (context_maps st) source = Some m \<and> map_of m t = Some p
                 \<and> p < length tokens \<and> tokens ! p = t \<and> (\<forall>q<p. tokens ! q \<noteq> t)))
     \<and> (\<forall>source' raw. \<exists>st'. ingest tokenize st source' raw = Inr st'
          \<and> (\<forall>source m t p. map_of (context_maps st) source = Some m \<and> map_of m t = Some p \<longrightarrow>
               (\<exists>m'. map_of (context_maps st') source = Some m' \<and> map_of m' t = Some p)))"
proof -
  from reachable [of tokenize calls] obtain st where
    st: "ingest_all tokenize init_engine calls = Inr st" "engine_inv st"
    by blast
  have first: "\<exists>m p. map_of (context_maps st) source = Some m \<and> map_of m t = Some p
                 \<and> p < length tokens \<and> tokens ! p = t \<and> (\<forall>q<p. tokens ! q \<noteq> t)"
    if "map_of (sources st) source = Some tokens" "t \<in> set tokens" for source tokens t
  proof -
    from engine_invD [OF st(2) that(1)] obtain m where
      m: "map_of (context_maps st) source = Some m" "map_of m = extend_index Map.empty 0 tokens"
      by auto
    from that(2) have "map_of m t = Some (first_pos t tokens)"
      by (simp add: m(2) extend_index_def)
    with m(1) first_pos_props [OF that(2)] show ?thesis
      by blast
  qed
  have keep: "\<exists>st'. ingest tokenize st source' raw = Inr st'
          \<and> (\<forall>source m t p. map_of (context_maps st) source = Some m \<and> map_of m t = Some p \<longrightarrow>
               (\<exists>m'. map_of (context_maps st') source = Some m' \<and> map_of m' t = Some p))"
    for source' raw
  proof -
    let ?old = "case map_of (sources st) source' of None \<Rightarrow> [] | Some old \<Rightarrow> old"
    from ingest_effect [OF st(2), of tokenize source' raw] obtain st' where
      r: "ingest tokenize st source' raw = Inr st'" "engine_inv st'"
         "map_of (sources st') source' = Some (?old @ text_tokens tokenize raw)"
         "\<forall>s. s \<noteq> source' \<longrightarrow> map_of (context_maps st') s = map_of (context_maps st) s"
      by auto
    have "\<exists>m'. map_of (context_maps st') source = Some m' \<and> map_of m' t = Some p"
      if a: "map_of (context_maps st) source = Some m" "map_of m t = Some p" for source m t p
    proof (cases "source = source'")
      case False
      with r(4) a show ?thesis by simp
    next
      case True
      from a(1) engine_inv_unknown [OF st(2), of source] obtain old where
        old: "map_of (sources st) source = Some old"
        by (cases "map_of (sources st) source") auto
      from engine_invD [OF st(2) old] a(1) have m: "map_of m = extend_index Map.empty 0 old"
        by auto
      from a(2) have t: "t \<in> set old" "p = first_pos t old"
        by (auto simp: m extend_index_def split: if_splits)
      from engine_invD [OF r(2) r(3)] obtain m' where
        m': "map_of (context_maps st') source' = Some m'"
            "map_of m' = extend_index Map.empty 0 (?old @ text_tokens tokenize raw)"
        by auto
      from old True t have "map_of m' t = Some p"
        by (simp add: m'(2) extend_index_def first_pos_append)
      with m'(1) True show ?thesis by simp
    qed
    with r(1) show ?thesis by blast
  qed
  from st(1) first keep show ?thesis
    by blast
qed

text \<open>
  C1, as amended. After any sequence of \<^verbatim>\<open>ingest\<close> calls, a raw text ingested into a source
  that none of the calls names gives the source the tokens of the text; \<^verbatim>\<open>scan_complete\<close>
  of the source then succeeds and the miss count stored for the source is 0; and when the
  text has at least one token and its last token occurs nowhere earlier among its tokens,
  \<^verbatim>\<open>scan_complete\<close> returns true.
\<close>

theorem complete_after_ingest:
  assumes "source \<notin> fst ` set calls"
  shows "\<exists>st0 st1 b st2.
      ingest_all tokenize init_engine calls = Inr st0
    \<and> ingest tokenize st0 source raw = Inr st1
    \<and> map_of (sources st1) source = Some (text_tokens tokenize raw)
    \<and> scan_complete st1 source = Inr (b, st2)
    \<and> map_of (miss_counts st2) source = Some 0
    \<and> (text_tokens tokenize raw \<noteq> []
         \<and> last (text_tokens tokenize raw) \<notin> set (butlast (text_tokens tokenize raw)) \<longrightarrow> b)"
proof -
  let ?toks = "text_tokens tokenize raw"
  from reachable [of tokenize calls] assms obtain st0 where
    0: "ingest_all tokenize init_engine calls = Inr st0" "engine_inv st0"
       "map_of (sources st0) source = None"
    by blast
  from ingest_effect [OF 0(2), of tokenize source raw] 0(3) obtain st1 where
    1: "ingest tokenize st0 source raw = Inr st1" "engine_inv st1"
       "map_of (sources st1) source = Some ?toks"
       "map_of (miss_counts st1) source = Some 0"
    by auto
  show ?thesis
  proof (cases "?toks = []")
    case True
    with 1(3) have "scan_complete st1 source = Inr (False, st1)"
      by (simp add: scan_complete_def)
    with 0(1) 1 True show ?thesis by auto
  next
    case False
    from scan_complete_inv [OF 1(2) 1(3) False] 0(1) 1(1,3) show ?thesis
      by (auto simp: update_conv')
  qed
qed

section \<open>Instances and scenarios\<close>

text \<open>The statement for the text \<^verbatim>\<open>hello world\<close> and a source not ingested before.\<close>

theorem complete_after_ingest_witness:
  "''f'' \<notin> fst ` set [(''g'', ''x y'')]
   \<and> text_tokens tokenize_syllabic ''hello world'' \<noteq> []
   \<and> last (text_tokens tokenize_syllabic ''hello world'')
       \<notin> set (butlast (text_tokens tokenize_syllabic ''hello world''))
   \<and> (\<exists>st0 st1 st2.
          ingest_all tokenize_syllabic init_engine [(''g'', ''x y'')] = Inr st0
        \<and> ingest tokenize_syllabic st0 ''f'' ''hello world'' = Inr st1
        \<and> map_of (sources st1) ''f'' = Some [''hello'', ''world'']
        \<and> scan_complete st1 ''f'' = Inr (True, st2)
        \<and> map_of (miss_counts st2) ''f'' = Some 0)"
proof -
  have toks: "text_tokens tokenize_syllabic ''hello world'' = [''hello'', ''world'']"
    by code_simp
  have fresh: "''f'' \<notin> fst ` set [(''g'', ''x y'')]"
    by simp
  from complete_after_ingest [OF fresh, of tokenize_syllabic "''hello world''"]
  show ?thesis
    unfolding toks by auto
qed

text \<open>
  The statement for the stream \<^verbatim>\<open>a b a\<close>: the index maps \<^verbatim>\<open>a\<close> to 0, and still does after
  \<^verbatim>\<open>c a\<close> is ingested into the same source.
\<close>

theorem index_first_occurrence_witness:
  "\<exists>st m st' m'.
      ingest_all tokenize_syllabic init_engine [(''f'', ''a b a'')] = Inr st
    \<and> map_of (sources st) ''f'' = Some [''a'', ''b'', ''a'']
    \<and> map_of (context_maps st) ''f'' = Some m \<and> map_of m ''a'' = Some 0
    \<and> ingest tokenize_syllabic st ''f'' ''c a'' = Inr st'
    \<and> map_of (context_maps st') ''f'' = Some m' \<and> map_of m' ''a'' = Some 0"
proof -
  have run: "ingest_all tokenize_syllabic init_engine [(''f'', ''a b a'')]
      = Inr \<lparr>sources = [(''f'', [''a'', ''b'', ''a''])],
             context_maps = [(''f'', [(''a'', 0), (''b'', 1)])],
             miss_counts = [(''f'', 0)],
             clusters = [(''f'', [[''a'', ''b'', ''a'']])]\<rparr>"
    by code_simp
  from index_first_occurrence [of tokenize_syllabic "[(''f'', ''a b a'')]"] obtain st where
    st: "ingest_all tokenize_syllabic init_engine [(''f'', ''a b a'')] = Inr st"
    and first: "\<And>source tokens t. map_of (sources st) source = Some tokens \<Longrightarrow> t \<in> set tokens \<Longrightarrow>
          \<exists>m p. map_of (context_maps st) source = Some m \<and> map_of m t = Some p
                 \<and> p < length tokens \<and> tokens ! p = t \<and> (\<forall>q<p. tokens ! q \<noteq> t)"
    and keep: "\<And>source' raw. \<exists>st'. ingest tokenize_syllabic st source' raw = Inr st'
          \<and> (\<forall>source m t p. map_of (context_maps st) source = Some m \<and> map_of m t = Some p \<longrightarrow>
               (\<exists>m'. map_of (context_maps st') source = Some m' \<and> map_of m' t = Some p))"
    by blast
  from st run have src: "map_of (sources st) ''f'' = Some [''a'', ''b'', ''a'']"
    by auto
  from first [OF src, of "''a''"] obtain m p where
    m: "map_of (context_maps st) ''f'' = Some m" "map_of m ''a'' = Some p"
    and p: "\<forall>q<p. [''a'', ''b'', ''a''] ! q \<noteq> ''a''"
    by auto
  have "p = 0"
  proof (rule ccontr)
    assume "p \<noteq> 0"
    then have "0 < p" by simp
    with p have "[''a'', ''b'', ''a''] ! 0 \<noteq> ''a''" by blast
    then show False by simp
  qed
  with m have m0: "map_of m ''a'' = Some 0"
    by simp
  from keep [of "''f''" "''c a''"] m(1) m0 obtain st' m' where
    "ingest tokenize_syllabic st ''f'' ''c a'' = Inr st'"
    "map_of (context_maps st') ''f'' = Some m'" "map_of m' ''a'' = Some 0"
    by blast
  with st src m(1) m0 show ?thesis
    by blast
qed

text \<open>
  C1 as stated fails. The text \<^verbatim>\<open>a b a\<close> ends in a token that occurred before: the index
  maps \<^verbatim>\<open>a\<close> to 0, not to 2, and \<^verbatim>\<open>scan_complete\<close> returns false. The text \<^verbatim>\<open>!\<close> has no
  token at all, and \<^verbatim>\<open>scan_complete\<close> returns false for a source without tokens.
\<close>

theorem complete_after_ingest_counterexample:
  "ingest tokenize_syllabic init_engine ''f'' ''a b a''
     = Inr \<lparr>sources = [(''f'', [''a'', ''b'', ''a''])],
            context_maps = [(''f'', [(''a'', 0), (''b'', 1)])],
            miss_counts = [(''f'', 0)],
            clusters = [(''f'', [[''a'', ''b'', ''a'']])]\<rparr>
   \<and> scan_complete
         \<lparr>sources = [(''f'', [''a'', ''b'', ''a''])],
          context_maps = [(''f'', [(''a'', 0), (''b'', 1)])],
          miss_counts = [(''f'', 0)],
          clusters = [(''f'', [[''a'', ''b'', ''a'']])]\<rparr> ''f''
     = Inr (False,
         \<lparr>sources = [(''f'', [''a'', ''b'', ''a''])],
          context_maps = [(''f'', [(''a'', 0), (''b'', 1)])],
          miss_counts = [(''f'', 0)],
          clusters = [(''f'', [[''a'', ''b'', ''a'']])]\<rparr>)
   \<and> ingest tokenize_syllabic init_engine ''f'' ''!''
     = Inr \<lparr>sources = [(''f'', [])], context_maps = [(''f'', [])],
            miss_counts = [(''f'', 0)], clusters = [(''f'', [])]\<rparr>
   \<and> scan_complete
         \<lparr>sources = [(''f'', [])], context_maps = [(''f'', [])],
          miss_counts = [(''f'', 0)], clusters = [(''f'', [])]\<rparr> ''f''
     = Inr (False,
         \<lparr>sources = [(''f'', [])], context_maps = [(''f'', [])],
          miss_counts = [(''f'', 0)], clusters = [(''f'', [])]\<rparr>)"
  by code_simp

text \<open>
  The parametrised loop with the regular-expression \<^verbatim>\<open>syllabify\<close> is the second class's
  tokenizer in syllable mode.
\<close>

lemma extend_syllables_with_v2: "extend_syllables_with syllabify_v2 words = extend_syllables words"
  by (induction words) simp_all

lemma tokenize_syllable_mode_v2:
  "tokenize_syllable_mode syllabify_v2 text = tokenize_syllabic_v2 True text"
  by (simp add: tokenize_syllable_mode_def tokenize_syllabic_v2_def extend_syllables_with_v2)


text \<open>
  For comparison, the second class as written, whose \<^verbatim>\<open>syllabify\<close> is the regular
  expression: it keeps \<^verbatim>\<open>strength\<close> whole, and the source has the one token.
\<close>

lemma strength_regex_policy:
  "syllabify_v2 ''strength'' = [''strength'']
   \<and> ingest (tokenize_syllabic_v2 True) init_engine ''src'' ''strength''
     = Inr \<lparr>sources = [(''src'', [''strength''])],
            context_maps = [(''src'', [(''strength'', 0)])],
            miss_counts = [(''src'', 0)],
            clusters = [(''src'', [[''strength'']])]\<rparr>
   \<and> token_count
         \<lparr>sources = [(''src'', [''strength''])],
          context_maps = [(''src'', [(''strength'', 0)])],
          miss_counts = [(''src'', 0)],
          clusters = [(''src'', [[''strength'']])]\<rparr> ''src'' = 1"
  by code_simp

text \<open>
  C2. The syllables of the first engine's \<^verbatim>\<open>syllabify\<close> concatenate to the word, for every
  word (\<open>syllabify_concat\<close>). The second engine's \<^verbatim>\<open>syllabify\<close> does so only for a word with
  one of \<^verbatim>\<open>aeiouAEIOU\<close> (\<open>findall_syllables_concat\<close>); for the word \<^verbatim>\<open>nth\<close> it returns no
  syllable at all.
\<close>

theorem syllabify_v2_round_trip_fails:
  "concat (syllabify ''nth'') = ''nth''
   \<and> syllabify_v2 ''nth'' = []
   \<and> concat (syllabify_v2 ''nth'') \<noteq> ''nth''"
  by code_simp

text \<open>
  C3. For a non-empty word without a vowel the first engine's \<^verbatim>\<open>syllabify\<close> returns the word
  as its one syllable (\<open>syllabify_no_vowel\<close>); the second engine's \<^verbatim>\<open>syllabify\<close> returns the
  empty sequence (\<open>findall_syllables_no_vowel\<close>), as on the word \<^verbatim>\<open>nth\<close>.
\<close>

theorem syllabify_v2_no_vowel_word:
  "set ''nth'' \<inter> set vowels = {}
   \<and> syllabify ''nth'' = [''nth'']
   \<and> syllabify_v2 ''nth'' \<noteq> [''nth'']
   \<and> length (syllabify_v2 ''nth'') = 0"
  by (simp add: vowels_def syllabify_def syllabify_v2_def re_nonvowel_def re_vowel_def)

end
